theory Spec2Isabelle
  imports Main "HOL-Library.Sublist" "HOL-Library.Word"
begin

section \<open>Data model\<close>

text \<open>
  The authentication subsystem of Alpaca: the multi-method authenticator
  (multiauth.go), the Negotiate authenticator (kerberos_darwin.go) and the part of
  main (main.go) that builds the chain of methods.

  A Go function returning \<open>(*http.Response, error)\<close> is modelled by a value of
  \<open>error + response\<close>: \<open>Inl err\<close> is \<open>(nil, err)\<close>, \<open>Inr resp\<close> is \<open>(resp, nil)\<close>.
  \<open>Errorf f args\<close> is the error \<open>fmt.Errorf(f, args...)\<close>, with the format string and
  its numeric arguments. A panic unwinding through the caller is an \<open>Inl\<close> as well.
  What the program writes to its log is left out.
\<close>

datatype error = Errorf string "nat list" | Panic string

text \<open>
  An \<open>*http.Response\<close>: the status code and the identity of its body stream
  (an \<open>io.ReadCloser\<close>).
\<close>

record response =
  StatusCode :: int
  Body :: nat

text \<open>
  A \<open>*url.URL\<close>; \<open>Hostname u\<close> is what the library method \<open>u.Hostname()\<close> returns.
\<close>

record url =
  Hostname :: string

text \<open>
  An \<open>*http.Request\<close>: the entry of its context under \<open>contextKeyProxy\<close>, a
  \<open>*url.URL\<close> (\<open>None\<close> when the context holds no value there), and its header.
\<close>

record request =
  ctx_proxy :: "url option"
  Header :: "string \<rightharpoonup> string list"

definition StatusProxyAuthRequired :: int where
  "StatusProxyAuthRequired = 407"

text \<open>
  The struct \<open>multiAuthenticator\<close>. The lock \<open>mu\<close> makes each read and each write of
  the cache a critical section of its own.
\<close>

record 'm multiAuthenticator =
  methods :: "'m list"
  cache :: "string \<rightharpoonup> 'm"

text \<open>
  A value of the interface \<open>proxyAuthenticator\<close> as \<open>newMultiAuthenticator\<close> returns
  it: nil, one of the given methods, or a pointer to a fresh \<open>multiAuthenticator\<close>.
\<close>

datatype 'm proxyAuthenticator =
  NilAuthenticator
  | Method 'm
  | Multi "'m multiAuthenticator"

section \<open>newMultiAuthenticator\<close>

text \<open>
  The loop \<open>for _, m := range methods { if m != nil { filtered = append(filtered, m) } }\<close>;
  a nil interface value is \<open>None\<close>.
\<close>

fun append_non_nil :: "'m list \<Rightarrow> 'm option list \<Rightarrow> 'm list" where
  "append_non_nil filtered [] = filtered"
| "append_non_nil filtered (m # ms) =
     (case m of
        None \<Rightarrow> append_non_nil filtered ms
      | Some x \<Rightarrow> append_non_nil (filtered @ [x]) ms)"

definition newMultiAuthenticator :: "'m option list \<Rightarrow> 'm proxyAuthenticator" where
  "newMultiAuthenticator ms =
     (let filtered = append_non_nil [] ms
      in if length filtered = 0 then NilAuthenticator
         else if length filtered = 1 then Method (filtered ! 0)
         else Multi \<lparr>methods = filtered, cache = Map.empty\<rparr>)"

section \<open>multiAuthenticator.do\<close>

text \<open>
  What a call reaches outside the multiAuthenticator. \<open>method_do E m req rt w\<close> is
  the interface call \<open>m.do(req, rt)\<close> in the world \<open>w\<close> (network, operating system,
  the state of the methods): it yields the pair \<open>(resp, err)\<close>, the request as the
  method leaves it (methods set headers on the request they are given) and the next
  world. \<open>body_close E b w\<close> is the effect of \<open>Close()\<close> on the body \<open>b\<close>.
\<close>

record ('m, 'rt, 'w) env =
  method_do :: "'m \<Rightarrow> request \<Rightarrow> 'rt \<Rightarrow> 'w \<Rightarrow> (error + response) \<times> request \<times> 'w"
  body_close :: "nat \<Rightarrow> 'w \<Rightarrow> 'w"

text \<open>
  The operations a call performs on its methods and on response bodies, in the order
  it performs them. \<open>MethodDo m res\<close>: \<open>m.do(req, rt)\<close> was called and returned
  \<open>res\<close>. The body \<open>b\<close> of a response is an \<open>io.ReadCloser\<close>: \<open>BodyRead b\<close> reads it
  to its end, \<open>BodyClose b\<close> is \<open>b.Close()\<close>.
\<close>

datatype 'm operation =
  MethodDo 'm "error + response"
  | BodyRead nat
  | BodyClose nat

text \<open>
  The outcome of one call of \<open>do\<close>: the returned pair, and what the call has
  changed (the request, the multiAuthenticator, the world), with the operations
  performed.
\<close>

record ('m, 'w) outcome =
  result :: "error + response"
  req_after :: request
  auth_after :: "'m multiAuthenticator"
  world_after :: 'w
  calls :: "'m operation list"

definition proxyHost_of :: "request \<Rightarrow> string" where
  "proxyHost_of req =
     (case ctx_proxy req of
        None \<Rightarrow> ''''
      | Some value \<Rightarrow> Hostname value)"

text \<open>The outcome \<open>out\<close> of the rest of a call, reached after the operations \<open>ops\<close>.\<close>

definition after_ops :: "'m operation list \<Rightarrow> ('m, 'w) outcome \<Rightarrow> ('m, 'w) outcome" where
  "after_ops ops out = out\<lparr>calls := ops @ calls out\<rparr>"

text \<open>
  The loop \<open>for i, method := range m.methods\<close> from index \<open>i\<close> on, and the
  \<open>return nil, fmt.Errorf(...)\<close> that follows it.
\<close>

function range_methods ::
  "('m, 'rt, 'w) env \<Rightarrow> 'rt \<Rightarrow> string \<Rightarrow> nat \<Rightarrow> request \<Rightarrow> 'm multiAuthenticator \<Rightarrow> 'w
     \<Rightarrow> ('m, 'w) outcome" where
  "range_methods E rt proxyHost i req m w =
     (if i < length (methods m) then
        (let method = methods m ! i in
         case method_do E method req rt w of (res, req1, w1) \<Rightarrow>
           (case res of
              Inl err \<Rightarrow>
                \<lparr>result = Inl err, req_after = req1, auth_after = m, world_after = w1,
                 calls = [MethodDo method res]\<rparr>
            | Inr resp \<Rightarrow>
                if StatusCode resp \<noteq> StatusProxyAuthRequired then
                  \<lparr>result = Inr resp, req_after = req1,
                   auth_after =
                     (if proxyHost \<noteq> ''''
                      then m\<lparr>cache := (cache m)(proxyHost \<mapsto> method)\<rparr> else m),
                   world_after = w1, calls = [MethodDo method res]\<rparr>
                else if int i < int (length (methods m)) - 1 then
                  after_ops [MethodDo method res, BodyClose (Body resp)]
                    (range_methods E rt proxyHost (Suc i) req1 m (body_close E (Body resp) w1))
                else
                  \<lparr>result = Inr resp, req_after = req1, auth_after = m, world_after = w1,
                   calls = [MethodDo method res]\<rparr>))
      else
        \<lparr>result = Inl (Errorf ''no authentication methods configured'' []),
         req_after = req, auth_after = m, world_after = w, calls = []\<rparr>)"
  by pat_completeness auto
termination
  by (relation "measure (\<lambda>(E, rt, proxyHost, i, req, m, w). length (methods m) - i)") auto

declare range_methods.simps [simp del]

definition multiAuthenticator_do ::
  "('m, 'rt, 'w) env \<Rightarrow> request \<Rightarrow> 'rt \<Rightarrow> 'm multiAuthenticator \<Rightarrow> 'w \<Rightarrow> ('m, 'w) outcome" where
  "multiAuthenticator_do E req rt m w =
     (let proxyHost = proxyHost_of req;
          try_each = range_methods E rt proxyHost 0 req m w
      in if proxyHost \<noteq> '''' then
           (case cache m proxyHost of
              Some cached \<Rightarrow>
                (case method_do E cached req rt w of (res, req1, w1) \<Rightarrow>
                   \<lparr>result = res, req_after = req1, auth_after = m, world_after = w1,
                    calls = [MethodDo cached res]\<rparr>)
            | None \<Rightarrow> try_each)
         else try_each)"

text \<open>
  A run of calls on the same multiAuthenticator in which no call overlaps another,
  whatever the world is at each call: \<open>serve E rs m\<close> is the multiAuthenticator after
  the calls \<open>rs\<close>. Calls that overlap are modelled further down.
\<close>

fun serve ::
  "('m, 'rt, 'w) env \<Rightarrow> (request \<times> 'rt \<times> 'w) list \<Rightarrow> 'm multiAuthenticator
     \<Rightarrow> 'm multiAuthenticator" where
  "serve E [] m = m"
| "serve E ((req, rt, w) # rs) m = serve E rs (auth_after (multiAuthenticator_do E req rt m w))"

subsection \<open>Vocabulary for the operations of a call\<close>

definition returns_407 :: "error + response \<Rightarrow> bool" where
  "returns_407 res =
     (case res of Inl err \<Rightarrow> False | Inr resp \<Rightarrow> StatusCode resp = StatusProxyAuthRequired)"

text \<open>The methods whose \<open>do\<close> was called, in the order of the calls.\<close>

fun invoked :: "'m operation list \<Rightarrow> 'm list" where
  "invoked [] = []"
| "invoked (MethodDo x res # ops) = x # invoked ops"
| "invoked (BodyRead b # ops) = invoked ops"
| "invoked (BodyClose b # ops) = invoked ops"

text \<open>What the methods returned, in the order of the calls.\<close>

fun results :: "'m operation list \<Rightarrow> (error + response) list" where
  "results [] = []"
| "results (MethodDo x res # ops) = res # results ops"
| "results (BodyRead b # ops) = results ops"
| "results (BodyClose b # ops) = results ops"

text \<open>
  The operations of a run of rejected methods: each method is called, returns a
  response, and the body of that response is closed before anything else happens.
\<close>

fun rejections :: "('m \<times> response) list \<Rightarrow> 'm operation list" where
  "rejections [] = []"
| "rejections ((x, resp) # xs) =
     MethodDo x (Inr resp) # BodyClose (Body resp) # rejections xs"

text \<open>
  Every response received before the last operation of a call was a 407 whose body
  was closed at once, before the next method was called; the last operation is a
  call of a method.
\<close>

fun closed_before_next :: "'m operation list \<Rightarrow> bool" where
  "closed_before_next [] = True"
| "closed_before_next [MethodDo x res] = True"
| "closed_before_next (MethodDo x (Inr resp) # BodyClose b # ops) =
     (StatusCode resp = StatusProxyAuthRequired \<and> b = Body resp \<and> closed_before_next ops)"
| "closed_before_next ops = False"

text \<open>
  The same, where the body of each such response is also read to its end before it
  is closed.
\<close>

fun drained_and_closed_before_next :: "'m operation list \<Rightarrow> bool" where
  "drained_and_closed_before_next [] = True"
| "drained_and_closed_before_next [MethodDo x res] = True"
| "drained_and_closed_before_next (MethodDo x (Inr resp) # BodyRead b # BodyClose b' # ops) =
     (StatusCode resp = StatusProxyAuthRequired \<and> b = Body resp \<and> b' = Body resp \<and>
      drained_and_closed_before_next ops)"
| "drained_and_closed_before_next ops = False"

subsection \<open>The two critical sections of a call, and calls that overlap\<close>

text \<open>
  A call reads the cache in one critical section (under \<open>mu.RLock\<close>) and writes it
  in another (under \<open>mu.Lock\<close>, when a method has succeeded); in between it holds
  no lock and does not touch the cache. \<open>lookup m req\<close> is what the first section
  finds; \<open>after_lookup E req rt found m w\<close> is the rest of the call, run on the
  multiAuthenticator \<open>m\<close> as it is when the rest stores.
\<close>

definition lookup :: "'m multiAuthenticator \<Rightarrow> request \<Rightarrow> 'm option" where
  "lookup m req =
     (let proxyHost = proxyHost_of req
      in if proxyHost \<noteq> '''' then cache m proxyHost else None)"

definition after_lookup ::
  "('m, 'rt, 'w) env \<Rightarrow> request \<Rightarrow> 'rt \<Rightarrow> 'm option \<Rightarrow> 'm multiAuthenticator \<Rightarrow> 'w
     \<Rightarrow> ('m, 'w) outcome" where
  "after_lookup E req rt found m w =
     (case found of
        Some cached \<Rightarrow>
          (case method_do E cached req rt w of (res, req1, w1) \<Rightarrow>
             \<lparr>result = res, req_after = req1, auth_after = m, world_after = w1,
              calls = [MethodDo cached res]\<rparr>)
      | None \<Rightarrow> range_methods E rt (proxyHost_of req) 0 req m w)"

text \<open>
  The server runs the calls of different requests at the same time. A history lists
  the calls in the order in which their second parts run; the number \<open>k\<close> of a call
  says that it looked the cache up when \<open>k\<close> of the second parts had run (at most
  those before its own). \<open>overlapped E seen cs\<close> extends the list \<open>seen\<close> of the
  multiAuthenticators so far, the latest last, by those the calls \<open>cs\<close> leave.
\<close>

fun overlapped ::
  "('m, 'rt, 'w) env \<Rightarrow> 'm multiAuthenticator list \<Rightarrow> (request \<times> 'rt \<times> 'w \<times> nat) list
     \<Rightarrow> 'm multiAuthenticator list" where
  "overlapped E seen [] = seen"
| "overlapped E seen ((req, rt, w, k) # cs) =
     overlapped E
       (seen @ [auth_after (after_lookup E req rt
                  (lookup (seen ! min k (length seen - 1)) req) (last seen) w)])
       cs"

subsection \<open>What the methods return in their turn\<close>

text \<open>
  \<open>replies E rt xs req w\<close>: what the methods \<open>xs\<close> return when they are asked one
  after the other, the first with \<open>req\<close> in the world \<open>w\<close>, each next one with the
  request as the method before left it, after the body of the response before was
  closed. Each reply comes with the request and the world the method left.
\<close>

fun replies ::
  "('m, 'rt, 'w) env \<Rightarrow> 'rt \<Rightarrow> 'm list \<Rightarrow> request \<Rightarrow> 'w
     \<Rightarrow> ((error + response) \<times> request \<times> 'w) list" where
  "replies E rt [] req w = []"
| "replies E rt (x # xs) req w =
     (case method_do E x req rt w of (res, req1, w1) \<Rightarrow>
        (res, req1, w1) #
        replies E rt xs req1
          (case res of Inl err \<Rightarrow> w1 | Inr resp \<Rightarrow> body_close E (Body resp) w1))"

text \<open>The replies up to and including the first that is not a 407 response.\<close>

fun until_decisive :: "((error + response) \<times> 'a) list \<Rightarrow> ((error + response) \<times> 'a) list" where
  "until_decisive [] = []"
| "until_decisive (p # ps) = p # (if returns_407 (fst p) then until_decisive ps else [])"

text \<open>
  The operations of a loop in which the methods \<open>xs\<close> are called in their order and
  return \<open>rs\<close>: after every reply but the last, the body of the response is closed,
  and then the next method is called.
\<close>

fun ops_of :: "'m list \<Rightarrow> (error + response) list \<Rightarrow> 'm operation list" where
  "ops_of (x # y # xs) (Inr resp # r # rs) =
     MethodDo x (Inr resp) # BodyClose (Body resp) # ops_of (y # xs) (r # rs)"
| "ops_of (x # xs) (r # rs) = [MethodDo x r]"
| "ops_of xs rs = []"

subsection \<open>Example upstream proxies\<close>

text \<open>
  Two upstream proxies for the chain Negotiate, Basic, NTLM, with methods named by
  strings. The world counts the responses received so far, and the body of a
  response is numbered by it. The first proxy rejects Negotiate and Basic with 407
  and accepts NTLM with 200; the second rejects every method.
\<close>

definition ntlm_upstream :: "(string, unit, nat) env" where
  "ntlm_upstream =
     \<lparr>method_do = (\<lambda>x req rt w.
        (Inr \<lparr>StatusCode = (if x = ''ntlm'' then 200 else 407), Body = w\<rparr>, req, Suc w)),
      body_close = (\<lambda>b w. w)\<rparr>"

definition rejecting_upstream :: "(string, unit, nat) env" where
  "rejecting_upstream =
     \<lparr>method_do = (\<lambda>x req rt w. (Inr \<lparr>StatusCode = 407, Body = w\<rparr>, req, Suc w)),
      body_close = (\<lambda>b w. w)\<rparr>"

text \<open>
  An upstream proxy that changes its mind: it accepts Negotiate in the world 0 only
  (the ticket is still good), NTLM always, and rejects everything else with 407.
\<close>

definition changing_upstream :: "(string, unit, nat) env" where
  "changing_upstream =
     \<lparr>method_do = (\<lambda>x req rt w.
        (Inr \<lparr>StatusCode = (if x = ''ntlm'' \<or> (x = ''negotiate'' \<and> w = 0) then 200 else 407),
              Body = w\<rparr>, req, Suc w)),
      body_close = (\<lambda>b w. w)\<rparr>"

definition example_chain :: "string multiAuthenticator" where
  "example_chain = \<lparr>methods = [''negotiate'', ''basic'', ''ntlm''], cache = Map.empty\<rparr>"

definition via_up :: request where
  "via_up = \<lparr>ctx_proxy = Some \<lparr>Hostname = ''up.example''\<rparr>, Header = Map.empty\<rparr>"

definition nameless_proxy :: request where
  "nameless_proxy = \<lparr>ctx_proxy = Some \<lparr>Hostname = ''''\<rparr>, Header = Map.empty\<rparr>"

definition no_proxy :: request where
  "no_proxy = \<lparr>ctx_proxy = None, Header = Map.empty\<rparr>"

section \<open>negotiateAuthenticator.do\<close>













subsection \<open>An example ticket cache\<close>



section \<open>The authentication chain built by main\<close>

text \<open>The command line flags, after \<open>flag.Parse()\<close>.\<close>

record flags =
  hosts :: "string list"
  port :: int
  pacurl :: string
  domain :: string
  username :: string
  basicCreds :: string
  printHash :: bool
  kerberos :: bool
  kerberosWait :: int
  quiet :: bool
  jsonLogs :: bool
  version :: bool

text \<open>
  What main takes from the rest of the program and from the platform: the build
  version, the environment variable \<open>NTLM_CREDENTIALS\<close>, the constructors of the
  Basic authenticator and of the credential sources (\<open>forUser P d u\<close> is
  \<open>fromTerminal().forUser(d, u)\<close>), \<open>getCredentials\<close> of a source, the
  platform's \<open>newNegotiateAuthenticator\<close>, and the rendering of the NTLM
  authenticator under the verb \<open>%q\<close>. A nil pointer or interface is \<open>None\<close>.
\<close>

record ('src, 'a, 'b, 'n) platform =
  BuildVersion :: string
  NTLM_CREDENTIALS :: string
  newBasicAuthenticator :: "string \<Rightarrow> 'b option"
  forUser :: "string \<Rightarrow> string \<Rightarrow> 'src option"
  fromEnvVar :: "string \<Rightarrow> 'src option"
  fromKeyring :: "'src option"
  getCredentials :: "'src \<Rightarrow> 'a option \<times> error option"
  newNegotiateAuthenticator :: "int \<Rightarrow> 'n option"
  quoted :: "'a \<Rightarrow> string"

text \<open>
  The three kinds of authenticator main puts into the chain: the Negotiate
  authenticator, the \<open>*basicAuthenticator\<close> and the NTLM \<open>*authenticator\<close>.
\<close>

datatype ('a, 'b, 'n) auth_method =
  Negotiate 'n
  | Basic 'b
  | NTLM 'a

text \<open>
  How main ends, as far as it is modelled: \<open>os.Exit(code)\<close> after printing lines on
  standard output, or going on to create the server with the authenticator \<open>auth\<close>.
\<close>

datatype 'm startup =
  Exit int "string list"
  | Serve "'m proxyAuthenticator"

text \<open>The variable \<open>basicAuth\<close>.\<close>

definition basicAuth_of :: "flags \<Rightarrow> ('src, 'a, 'b, 'n) platform \<Rightarrow> 'b option" where
  "basicAuth_of F P =
     (if basicCreds F \<noteq> '''' then newBasicAuthenticator P (basicCreds F) else None)"

text \<open>The variable \<open>src\<close>.\<close>

definition src_of :: "flags \<Rightarrow> ('src, 'a, 'b, 'n) platform \<Rightarrow> 'src option" where
  "src_of F P =
     (if domain F \<noteq> '''' then forUser P (domain F) (username F)
      else if NTLM_CREDENTIALS P \<noteq> '''' then fromEnvVar P (NTLM_CREDENTIALS P)
      else fromKeyring P)"

text \<open>The variable \<open>a\<close>, nil unless \<open>src\<close> is not nil and gives credentials.\<close>

definition a_of :: "flags \<Rightarrow> ('src, 'a, 'b, 'n) platform \<Rightarrow> 'a option" where
  "a_of F P =
     (case src_of F P of
        None \<Rightarrow> None
      | Some src \<Rightarrow> fst (getCredentials P src))"

text \<open>The slice \<open>methods\<close> handed to \<open>newMultiAuthenticator\<close>.\<close>

definition methods_of :: "flags \<Rightarrow> ('src, 'a, 'b, 'n) platform \<Rightarrow> ('a, 'b, 'n) auth_method list" where
  "methods_of F P =
     (let methods0 = [];
          methods1 =
            (if kerberos F then
               (case newNegotiateAuthenticator P (kerberosWait F) of
                  Some neg \<Rightarrow> methods0 @ [Negotiate neg]
                | None \<Rightarrow> methods0)
             else methods0);
          methods2 =
            (case basicAuth_of F P of
               Some basicAuth \<Rightarrow> methods1 @ [Basic basicAuth]
             | None \<Rightarrow> methods1);
          methods3 =
            (case a_of F P of
               Some a \<Rightarrow> methods2 @ [NTLM a]
             | None \<Rightarrow> methods2)
      in methods3)"

definition main :: "flags \<Rightarrow> ('src, 'a, 'b, 'n) platform \<Rightarrow> ('a, 'b, 'n) auth_method startup" where
  "main F P =
     (if version F then Exit 0 [''Alpaca '' @ BuildVersion P]
      else if printHash F then
        (case a_of F P of
           None \<Rightarrow> Exit 1 [''Please specify a domain (using -d) and username (using -u)'']
         | Some a \<Rightarrow>
             Exit 0 [''# Add this to your ~/.profile (or equivalent) and restart your shell'',
                     ''NTLM_CREDENTIALS='' @ quoted P a @ ''; export NTLM_CREDENTIALS''])
      else Serve (newMultiAuthenticator (map Some (methods_of F P))))"

subsection \<open>The order of the chain\<close>

datatype kind = KNegotiate | KBasic | KNTLM

fun kind_of :: "('a, 'b, 'n) auth_method \<Rightarrow> kind" where
  "kind_of (Negotiate n) = KNegotiate"
| "kind_of (Basic b) = KBasic"
| "kind_of (NTLM a) = KNTLM"

text \<open>Whether main has an authenticator of a kind to put into the chain.\<close>

fun available :: "flags \<Rightarrow> ('src, 'a, 'b, 'n) platform \<Rightarrow> kind \<Rightarrow> bool" where
  "available F P KNegotiate =
     (kerberos F \<and> newNegotiateAuthenticator P (kerberosWait F) \<noteq> None)"
| "available F P KBasic = (basicAuth_of F P \<noteq> None)"
| "available F P KNTLM = (a_of F P \<noteq> None)"

subsection \<open>Example command lines\<close>

text \<open>
  A platform on which every constructor succeeds: sources and authenticators are
  named by strings, and a Kerberos ticket is there.
\<close>

definition workstation :: "(string, string, string, unit) platform" where
  "workstation =
     \<lparr>BuildVersion = ''v2'', NTLM_CREDENTIALS = '''',
      newBasicAuthenticator = (\<lambda>creds. Some creds),
      forUser = (\<lambda>d u. Some (d @ ''/'' @ u)),
      fromEnvVar = (\<lambda>v. Some v),
      fromKeyring = None,
      getCredentials = (\<lambda>src. (Some src, None)),
      newNegotiateAuthenticator = (\<lambda>wait. Some ()),
      quoted = (\<lambda>a. a)\<rparr>"

definition default_flags :: flags where
  "default_flags =
     \<lparr>hosts = [], port = 3128, pacurl = '''', domain = '''',
      username = ''me'', basicCreds = '''', printHash = False, kerberos = False,
      kerberosWait = 30, quiet = False, jsonLogs = False, version = False\<rparr>"

section \<open>Properties of newMultiAuthenticator\<close>

lemma append_non_nil_eq:
  "append_non_nil acc ms = acc @ map the (filter (\<lambda>m. m \<noteq> None) ms)"
  by (induction ms arbitrary: acc) (auto split: option.splits)

lemma switch_len:
  "(if length xs = 0 then a else if length xs = 1 then b (xs ! 0) else c xs) =
     (case xs of [] \<Rightarrow> a | [x] \<Rightarrow> b x | _ \<Rightarrow> c xs)"
  by (cases xs) (auto split: list.splits)

text \<open>
  Claim C9. newMultiAuthenticator drops the nil entries of its arguments, keeping
  the order of the others. With none left it returns nil; with exactly one left it
  returns that method itself; with two or more it returns a multiAuthenticator whose
  methods are the remaining ones in the same order and whose cache is empty.
\<close>

theorem newMultiAuthenticator_cases:
  "newMultiAuthenticator ms =
     (case map the (filter (\<lambda>m. m \<noteq> None) ms) of
        [] \<Rightarrow> NilAuthenticator
      | [x] \<Rightarrow> Method x
      | filtered \<Rightarrow> Multi \<lparr>methods = filtered, cache = Map.empty\<rparr>)"
proof -
  define filtered where "filtered = map the (filter (\<lambda>m. m \<noteq> None) ms)"
  have "append_non_nil [] ms = filtered"
    by (simp add: append_non_nil_eq filtered_def)
  then have "newMultiAuthenticator ms =
      (if length filtered = 0 then NilAuthenticator
       else if length filtered = 1 then Method (filtered ! 0)
       else Multi \<lparr>methods = filtered, cache = Map.empty\<rparr>)"
    by (simp add: newMultiAuthenticator_def)
  also have "\<dots> = (case filtered of
        [] \<Rightarrow> NilAuthenticator
      | [x] \<Rightarrow> Method x
      | _ \<Rightarrow> Multi \<lparr>methods = filtered, cache = Map.empty\<rparr>)"
    by (rule switch_len)
  finally show ?thesis
    unfolding filtered_def by (simp split: list.splits)
qed

theorem newMultiAuthenticator_cases_witness:
  "newMultiAuthenticator ([] :: string option list) = NilAuthenticator \<and>
   newMultiAuthenticator [None, Some ''ntlm'', None] = Method ''ntlm'' \<and>
   newMultiAuthenticator [Some ''negotiate'', None, Some ''basic'', Some ''ntlm''] =
     Multi \<lparr>methods = [''negotiate'', ''basic'', ''ntlm''], cache = Map.empty\<rparr>"
  using newMultiAuthenticator_cases[of "[] :: string option list"]
    newMultiAuthenticator_cases[of "[None, Some ''ntlm'', None]"]
    newMultiAuthenticator_cases[of "[Some ''negotiate'', None, Some ''basic'', Some ''ntlm'']"]
  by simp

section \<open>Properties of multiAuthenticator.do\<close>

subsection \<open>One iteration of the loop\<close>

lemma range_methods_unfold:
  "range_methods E rt h i req m w =
     (if i < length (methods m) then
        (case method_do E (methods m ! i) req rt w of (res, req1, w1) \<Rightarrow>
           (case res of
              Inl err \<Rightarrow>
                \<lparr>result = Inl err, req_after = req1, auth_after = m, world_after = w1,
                 calls = [MethodDo (methods m ! i) res]\<rparr>
            | Inr resp \<Rightarrow>
                if StatusCode resp \<noteq> 407 then
                  \<lparr>result = Inr resp, req_after = req1,
                   auth_after =
                     (if h \<noteq> ''''
                      then m\<lparr>cache := (cache m)(h \<mapsto> methods m ! i)\<rparr> else m),
                   world_after = w1, calls = [MethodDo (methods m ! i) res]\<rparr>
                else if Suc i < length (methods m) then
                  after_ops [MethodDo (methods m ! i) res, BodyClose (Body resp)]
                    (range_methods E rt h (Suc i) req1 m (body_close E (Body resp) w1))
                else
                  \<lparr>result = Inr resp, req_after = req1, auth_after = m, world_after = w1,
                   calls = [MethodDo (methods m ! i) res]\<rparr>))
      else
        \<lparr>result = Inl (Errorf ''no authentication methods configured'' []),
         req_after = req, auth_after = m, world_after = w, calls = []\<rparr>)"
  by (subst range_methods.simps)
     (auto simp: Let_def StatusProxyAuthRequired_def split: prod.splits sum.splits)


lemma from_index_induct [case_names step]:
  fixes ms :: "'a list"
  assumes "\<And>i req w. (\<And>req1 w1. Suc i < length ms \<Longrightarrow> P (Suc i) req1 w1) \<Longrightarrow> P i req w"
  shows "P i req w"
proof (induction "length ms - i" arbitrary: i req w)
  case 0
  show ?case
  proof (rule assms)
    fix req1 w1
    assume "Suc i < length ms"
    with 0 show "P (Suc i) req1 w1" by simp
  qed
next
  case (Suc n)
  show ?case
  proof (rule assms)
    fix req1 w1
    assume "Suc i < length ms"
    with Suc.hyps(2) have "n = length ms - Suc i" by simp
    then show "P (Suc i) req1 w1" by (rule Suc.hyps(1))
  qed
qed


lemma range_methods_end:
  "\<not> i < length (methods m) \<Longrightarrow>
   range_methods E rt h i req m w =
     \<lparr>result = Inl (Errorf ''no authentication methods configured'' []),
      req_after = req, auth_after = m, world_after = w, calls = []\<rparr>"
  by (subst range_methods_unfold) simp

lemma range_methods_err:
  "i < length (methods m) \<Longrightarrow> method_do E (methods m ! i) req rt w = (Inl err, req1, w1) \<Longrightarrow>
   range_methods E rt h i req m w =
     \<lparr>result = Inl err, req_after = req1, auth_after = m, world_after = w1,
      calls = [MethodDo (methods m ! i) (Inl err)]\<rparr>"
  by (subst range_methods_unfold) simp

lemma range_methods_ok:
  "i < length (methods m) \<Longrightarrow> method_do E (methods m ! i) req rt w = (Inr resp, req1, w1) \<Longrightarrow>
   StatusCode resp \<noteq> 407 \<Longrightarrow>
   range_methods E rt h i req m w =
     \<lparr>result = Inr resp, req_after = req1,
      auth_after = (if h \<noteq> '''' then m\<lparr>cache := (cache m)(h \<mapsto> methods m ! i)\<rparr> else m),
      world_after = w1, calls = [MethodDo (methods m ! i) (Inr resp)]\<rparr>"
  by (subst range_methods_unfold) simp

lemma range_methods_next:
  "Suc i < length (methods m) \<Longrightarrow> method_do E (methods m ! i) req rt w = (Inr resp, req1, w1) \<Longrightarrow>
   StatusCode resp = 407 \<Longrightarrow>
   range_methods E rt h i req m w =
     after_ops [MethodDo (methods m ! i) (Inr resp), BodyClose (Body resp)]
       (range_methods E rt h (Suc i) req1 m (body_close E (Body resp) w1))"
  by (subst range_methods_unfold) simp

lemma range_methods_last:
  "Suc i = length (methods m) \<Longrightarrow> method_do E (methods m ! i) req rt w = (Inr resp, req1, w1) \<Longrightarrow>
   StatusCode resp = 407 \<Longrightarrow>
   range_methods E rt h i req m w =
     \<lparr>result = Inr resp, req_after = req1, auth_after = m, world_after = w1,
      calls = [MethodDo (methods m ! i) (Inr resp)]\<rparr>"
  by (subst range_methods_unfold) simp

lemma range_step_cases:
  obtains
    (finished) "\<not> i < length (methods m)"
  | (err) e req1 w1 where "i < length (methods m)"
      "method_do E (methods m ! i) req rt w = (Inl e, req1, w1)"
  | (ok) resp req1 w1 where "i < length (methods m)"
      "method_do E (methods m ! i) req rt w = (Inr resp, req1, w1)" "StatusCode resp \<noteq> 407"
  | (more) resp req1 w1 where "Suc i < length (methods m)"
      "method_do E (methods m ! i) req rt w = (Inr resp, req1, w1)" "StatusCode resp = 407"
  | (last) resp req1 w1 where "Suc i = length (methods m)"
      "method_do E (methods m ! i) req rt w = (Inr resp, req1, w1)" "StatusCode resp = 407"
proof (cases "i < length (methods m)")
  case False
  then show ?thesis by (rule finished)
next
  case True
  obtain res req1 w1 where D: "method_do E (methods m ! i) req rt w = (res, req1, w1)"
    by (cases "method_do E (methods m ! i) req rt w") auto
  show ?thesis
  proof (cases res)
    case (Inl e)
    with True D show ?thesis by (auto intro: err)
  next
    case (Inr resp)
    with True D show ?thesis
      by (cases "StatusCode resp = 407"; cases "Suc i < length (methods m)")
         (auto intro: ok more last simp: Suc_lessI)
  qed
qed


lemma invoked_rejections [simp]: "invoked (rejections pre @ ops) = map fst pre @ invoked ops"
  by (induction pre) auto

lemma results_rejections [simp]:
  "results (rejections pre @ ops) = map (\<lambda>p. Inr (snd p)) pre @ results ops"
  by (induction pre) auto

lemma after_ops_simps [simp]:
  "result (after_ops ops out) = result out"
  "req_after (after_ops ops out) = req_after out"
  "auth_after (after_ops ops out) = auth_after out"
  "world_after (after_ops ops out) = world_after out"
  "calls (after_ops ops out) = ops @ calls out"
  by (simp_all add: after_ops_def)


lemma range_methods_invoked_nonempty:
  "i < length (methods m) \<Longrightarrow> invoked (calls (range_methods E rt h i req m w)) \<noteq> []"
  by (cases rule: range_step_cases[where i=i and m=m and E=E and req=req and rt=rt and w=w])
     (simp_all add: range_methods_err range_methods_ok range_methods_next range_methods_last)


lemma range_methods_cached:
  "h \<noteq> '''' \<Longrightarrow> result (range_methods E rt h i req m w) = Inr resp \<Longrightarrow> StatusCode resp \<noteq> 407 \<Longrightarrow>
   auth_after (range_methods E rt h i req m w) =
     m\<lparr>cache := (cache m)(h \<mapsto> last (invoked (calls (range_methods E rt h i req m w))))\<rparr>"
proof (induction i req w rule: from_index_induct[where ms = "methods m"])
  case (step i req w)
  show ?case
  proof (cases rule: range_step_cases[where i=i and m=m and E=E and req=req and rt=rt and w=w])
    case finished
    with step.prems show ?thesis by (simp add: range_methods_end)
  next
    case (err e req1 w1)
    with step.prems show ?thesis by (simp add: range_methods_err)
  next
    case (ok resp' req1 w1)
    show ?thesis
      unfolding range_methods_ok[OF ok] using step.prems(1) by (simp add: fun_upd_def)
  next
    case (more resp' req1 w1)
    let ?rec = "range_methods E rt h (Suc i) req1 m (body_close E (Body resp') w1)"
    have eq: "range_methods E rt h i req m w =
        after_ops [MethodDo (methods m ! i) (Inr resp'), BodyClose (Body resp')] ?rec"
      using more by (rule range_methods_next)
    have ne: "invoked (calls ?rec) \<noteq> []"
      using more(1) by (rule range_methods_invoked_nonempty)
    have "auth_after ?rec = m\<lparr>cache := (cache m)(h \<mapsto> last (invoked (calls ?rec)))\<rparr>"
      using step.prems more(1) unfolding eq by (intro step.IH) simp_all
    with ne show ?thesis unfolding eq by (simp add: fun_upd_def)
  next
    case (last resp' req1 w1)
    with step.prems show ?thesis by (simp add: range_methods_last)
  qed
qed

lemma range_methods_uncached:
  "h = '''' \<or> (\<forall>resp. result (range_methods E rt h i req m w) = Inr resp \<longrightarrow> StatusCode resp = 407) \<Longrightarrow>
   auth_after (range_methods E rt h i req m w) = m"
proof (induction i req w rule: from_index_induct[where ms = "methods m"])
  case (step i req w)
  show ?case
  proof (cases rule: range_step_cases[where i=i and m=m and E=E and req=req and rt=rt and w=w])
    case finished
    with step.prems show ?thesis by (simp add: range_methods_end)
  next
    case (err e req1 w1)
    with step.prems show ?thesis by (simp add: range_methods_err)
  next
    case (ok resp' req1 w1)
    with step.prems show ?thesis by (simp add: range_methods_ok)
  next
    case (more resp' req1 w1)
    let ?rec = "range_methods E rt h (Suc i) req1 m (body_close E (Body resp') w1)"
    have eq: "range_methods E rt h i req m w =
        after_ops [MethodDo (methods m ! i) (Inr resp'), BodyClose (Body resp')] ?rec"
      using more by (rule range_methods_next)
    have "auth_after ?rec = m"
      using step.prems more(1) unfolding eq by (intro step.IH) simp_all
    then show ?thesis unfolding eq by simp
  next
    case (last resp' req1 w1)
    with step.prems show ?thesis by (simp add: range_methods_last)
  qed
qed

lemma range_methods_shape:
  "i < length (methods m) \<Longrightarrow>
   \<exists>pre x res.
     calls (range_methods E rt h i req m w) = rejections pre @ [MethodDo x res] \<and>
     result (range_methods E rt h i req m w) = res \<and>
     map fst pre @ [x] = take (Suc (length pre)) (drop i (methods m)) \<and>
     (\<forall>r\<in>set (map snd pre). StatusCode r = 407) \<and>
     (\<exists>rq w'. fst (method_do E x rq rt w') = res) \<and>
     (returns_407 res \<longrightarrow> i + Suc (length pre) = length (methods m))"
proof (induction i req w rule: from_index_induct[where ms = "methods m"])
  case (step i req w)
  let ?x = "methods m ! i"
  have hd: "take (Suc 0) (drop i (methods m)) = [?x]"
    using step.prems by (simp add: take_Suc_conv_app_nth)
  have single: "\<exists>pre x res'. [MethodDo ?x res] = rejections pre @ [MethodDo x res'] \<and>
       res = res' \<and> map fst pre @ [x] = take (Suc (length pre)) (drop i (methods m)) \<and>
       (\<forall>r\<in>set (map snd pre). StatusCode r = 407) \<and>
       (\<exists>rq w'. fst (method_do E x rq rt w') = res') \<and>
       (returns_407 res' \<longrightarrow> i + Suc (length pre) = length (methods m))"
    if "fst (method_do E ?x req rt w) = res" "returns_407 res \<longrightarrow> Suc i = length (methods m)"
    for res
    using that hd by (intro exI[of _ "[]"] exI[of _ ?x] exI[of _ res]) auto
  show ?case
  proof (cases rule: range_step_cases[where i=i and m=m and E=E and req=req and rt=rt and w=w])
    case finished
    with step.prems show ?thesis by simp
  next
    case (err e req1 w1)
    then show ?thesis
      using single[of "Inl e"] by (simp add: range_methods_err returns_407_def)
  next
    case (ok resp req1 w1)
    then show ?thesis
      using single[of "Inr resp"]
      by (simp add: range_methods_ok returns_407_def StatusProxyAuthRequired_def)
  next
    case (more resp req1 w1)
    from step.IH[OF more(1) more(1), of req1 "body_close E (Body resp) w1"]
    obtain pre x res where IH:
      "calls (range_methods E rt h (Suc i) req1 m (body_close E (Body resp) w1)) =
         rejections pre @ [MethodDo x res]"
      "result (range_methods E rt h (Suc i) req1 m (body_close E (Body resp) w1)) = res"
      "map fst pre @ [x] = take (Suc (length pre)) (drop (Suc i) (methods m))"
      "\<forall>r\<in>set (map snd pre). StatusCode r = 407"
      "\<exists>rq w'. fst (method_do E x rq rt w') = res"
      "returns_407 res \<longrightarrow> Suc i + Suc (length pre) = length (methods m)"
      by blast
    have dr: "drop i (methods m) = ?x # drop (Suc i) (methods m)"
      using step.prems by (simp add: Cons_nth_drop_Suc)
    show ?thesis
      apply (rule exI[of _ "(?x, resp) # pre"], rule exI[of _ x], rule exI[of _ res])
      using IH more dr by (simp add: range_methods_next after_ops_def)
  next
    case (last resp req1 w1)
    then show ?thesis
      using single[of "Inr resp"]
      by (simp add: range_methods_last returns_407_def StatusProxyAuthRequired_def)
  qed
qed


lemma do_uncached:
  "proxyHost_of req = '''' \<or> cache m (proxyHost_of req) = None \<Longrightarrow>
   multiAuthenticator_do E req rt m w = range_methods E rt (proxyHost_of req) 0 req m w"
  by (auto simp: multiAuthenticator_do_def Let_def)


lemma range_methods_auth_cases:
  "auth_after (range_methods E rt h i req m w) = m \<or>
   auth_after (range_methods E rt h i req m w) =
     m\<lparr>cache := (cache m)(h \<mapsto> last (invoked (calls (range_methods E rt h i req m w))))\<rparr>"
  using range_methods_cached[of h E rt i req m w] range_methods_uncached[of h E rt i req m w]
  by blast

lemma range_methods_keeps_methods:
  "methods (auth_after (range_methods E rt h i req m w)) = methods m"
  using range_methods_auth_cases[of E rt h i req m w] by auto


lemma do_shape:
  assumes "proxyHost_of req = '''' \<or> cache m (proxyHost_of req) = None" and "methods m \<noteq> []"
  shows "\<exists>pre x.
    calls (multiAuthenticator_do E req rt m w) =
       rejections pre @ [MethodDo x (result (multiAuthenticator_do E req rt m w))] \<and>
    map fst pre @ [x] = take (Suc (length pre)) (methods m) \<and>
    (\<forall>r\<in>set (map snd pre). StatusCode r = 407) \<and>
    (\<exists>rq w'. fst (method_do E x rq rt w') = result (multiAuthenticator_do E req rt m w)) \<and>
    (returns_407 (result (multiAuthenticator_do E req rt m w)) \<longrightarrow>
       Suc (length pre) = length (methods m))"
proof -
  let ?out = "range_methods E rt (proxyHost_of req) 0 req m w"
  from assms(2) have "0 < length (methods m)" by simp
  from range_methods_shape[OF this, of E rt "proxyHost_of req" req w]
  obtain pre x res where sh:
    "calls ?out = rejections pre @ [MethodDo x res]"
    "result ?out = res"
    "map fst pre @ [x] = take (Suc (length pre)) (drop 0 (methods m))"
    "\<forall>r\<in>set (map snd pre). StatusCode r = 407"
    "\<exists>rq w'. fst (method_do E x rq rt w') = res"
    "returns_407 res \<longrightarrow> 0 + Suc (length pre) = length (methods m)"
    by blast
  show ?thesis
    unfolding do_uncached[OF assms(1)]
    apply (rule exI[of _ pre], rule exI[of _ x])
    using sh by simp
qed

lemma rejections_members:
  "MethodDo x (Inr r) \<in> set (rejections pre) \<Longrightarrow> r \<in> set (map snd pre)"
  by (induction pre) auto

lemma range_methods_ignores_cache:
  "result (range_methods E rt h i req (m\<lparr>cache := c\<rparr>) w) = result (range_methods E rt h i req m w) \<and>
   req_after (range_methods E rt h i req (m\<lparr>cache := c\<rparr>) w) = req_after (range_methods E rt h i req m w) \<and>
   world_after (range_methods E rt h i req (m\<lparr>cache := c\<rparr>) w) = world_after (range_methods E rt h i req m w) \<and>
   calls (range_methods E rt h i req (m\<lparr>cache := c\<rparr>) w) = calls (range_methods E rt h i req m w)"
proof (induction i req w rule: from_index_induct[where ms = "methods m"])
  case (step i req w)
  let ?m = "m\<lparr>cache := c\<rparr>"
  show ?case
  proof (cases rule: range_step_cases[where i=i and m=m and E=E and req=req and rt=rt and w=w])
    case finished
    then show ?thesis by (simp add: range_methods_end)
  next
    case (err e req1 w1)
    then show ?thesis
      by (simp add: range_methods_err[of i m] range_methods_err[of i ?m])
  next
    case (ok resp req1 w1)
    then show ?thesis
      by (simp add: range_methods_ok[of i m] range_methods_ok[of i ?m])
  next
    case (more resp req1 w1)
    then show ?thesis
      using step[of req1 "body_close E (Body resp) w1"]
      by (simp add: range_methods_next[of i m] range_methods_next[of i ?m])
  next
    case (last resp req1 w1)
    then show ?thesis
      by (simp add: range_methods_last[of i m] range_methods_last[of i ?m])
  qed
qed

lemma do_empty_chain:
  "multiAuthenticator_do E req rt \<lparr>methods = [], cache = Map.empty\<rparr> w =
     \<lparr>result = Inl (Errorf ''no authentication methods configured'' []),
      req_after = req, auth_after = \<lparr>methods = [], cache = Map.empty\<rparr>,
      world_after = w, calls = []\<rparr>"
  by (simp add: do_uncached range_methods_end)

lemma serve_empty_chain:
  "serve E rs \<lparr>methods = [], cache = Map.empty\<rparr> = \<lparr>methods = [], cache = Map.empty\<rparr>"
  by (induction rs) (auto simp: do_empty_chain)

lemma newMultiAuthenticator_all_nil:
  "newMultiAuthenticator (replicate n None) = NilAuthenticator"
  by (simp add: newMultiAuthenticator_def append_non_nil_eq)

subsection \<open>The loop and the replies of the methods\<close>

lemma replies_length [simp]: "length (replies E rt xs req w) = length xs"
  by (induction xs arbitrary: req w) (auto split: prod.splits)

lemma until_decisive_nonempty [simp]: "until_decisive ps = [] \<longleftrightarrow> ps = []"
  by (cases ps) auto

lemma ops_of_single [simp]: "ops_of (x # xs) [r] = [MethodDo x r]"
  by (cases xs; cases r) auto

lemma ops_of_last [simp]: "ops_of [x] (r # rs) = [MethodDo x r]"
  by (cases r; cases rs) auto

lemma ops_of_more:
  "xs \<noteq> [] \<Longrightarrow> rs \<noteq> [] \<Longrightarrow>
   ops_of (x # xs) (Inr resp # rs) =
     MethodDo x (Inr resp) # BodyClose (Body resp) # ops_of xs rs"
  by (cases xs; cases rs) auto

lemma replies_nonempty [simp]: "replies E rt xs req w = [] \<longleftrightarrow> xs = []"
  by (cases xs) (auto split: prod.splits)

lemma range_methods_replies:
  "i \<le> length (methods m) \<Longrightarrow>
   calls (range_methods E rt h i req m w) =
     ops_of (drop i (methods m))
       (map fst (until_decisive (replies E rt (drop i (methods m)) req w))) \<and>
   (i < length (methods m) \<longrightarrow>
      (result (range_methods E rt h i req m w), req_after (range_methods E rt h i req m w),
       world_after (range_methods E rt h i req m w)) =
      last (until_decisive (replies E rt (drop i (methods m)) req w)))"
proof (induction i req w rule: from_index_induct[where ms = "methods m"])
  case (step i req w)
  let ?x = "methods m ! i"
  show ?case
  proof (cases rule: range_step_cases[where i=i and m=m and E=E and req=req and rt=rt and w=w])
    case finished
    with step.prems show ?thesis by (simp add: range_methods_end)
  next
    case (err e req1 w1)
    then have dr: "drop i (methods m) = ?x # drop (Suc i) (methods m)"
      by (simp add: Cons_nth_drop_Suc)
    from err show ?thesis
      unfolding dr by (simp add: range_methods_err returns_407_def)
  next
    case (ok resp req1 w1)
    then have dr: "drop i (methods m) = ?x # drop (Suc i) (methods m)"
      by (simp add: Cons_nth_drop_Suc)
    from ok show ?thesis
      unfolding dr
      by (simp add: range_methods_ok returns_407_def StatusProxyAuthRequired_def)
  next
    case (more resp req1 w1)
    let ?w = "body_close E (Body resp) w1"
    let ?rest = "drop (Suc i) (methods m)"
    have dr: "drop i (methods m) = ?x # ?rest"
      using more(1) by (simp add: Cons_nth_drop_Suc)
    have ne: "?rest \<noteq> []" using more(1) by simp
    from step.IH[OF more(1), of req1 ?w] more(1)
    have IH: "calls (range_methods E rt h (Suc i) req1 m ?w) =
        ops_of ?rest (map fst (until_decisive (replies E rt ?rest req1 ?w)))"
      "(result (range_methods E rt h (Suc i) req1 m ?w),
        req_after (range_methods E rt h (Suc i) req1 m ?w),
        world_after (range_methods E rt h (Suc i) req1 m ?w)) =
       last (until_decisive (replies E rt ?rest req1 ?w))"
      by simp_all
    have r407: "returns_407 (Inr resp)"
      using more(3) by (simp add: returns_407_def StatusProxyAuthRequired_def)
    have reps: "until_decisive (replies E rt (?x # ?rest) req w) =
        (Inr resp, req1, w1) # until_decisive (replies E rt ?rest req1 ?w)"
      using more(2) r407 by simp
    show ?thesis
      unfolding dr reps range_methods_next[OF more]
      using IH ne by (simp add: ops_of_more)
  next
    case (last resp req1 w1)
    then have dr: "drop i (methods m) = [?x]"
      by (metis Cons_nth_drop_Suc drop_all lessI order_refl)
    from last show ?thesis
      unfolding dr by (simp add: range_methods_last)
  qed
qed


lemma ops_of_until_decisive:
  "length rs = length xs \<Longrightarrow>
   invoked (ops_of xs (map fst (until_decisive rs))) = take (length (until_decisive rs)) xs \<and>
   results (ops_of xs (map fst (until_decisive rs))) = map fst (until_decisive rs) \<and>
   closed_before_next (ops_of xs (map fst (until_decisive rs))) \<and>
   (\<forall>b. BodyRead b \<notin> set (ops_of xs (map fst (until_decisive rs))))"
proof (induction xs arbitrary: rs)
  case Nil
  then show ?case by simp
next
  case (Cons x xs)
  then obtain p ps where rs: "rs = p # ps" "length ps = length xs"
    by (cases rs) auto
  show ?case
  proof (cases "returns_407 (fst p) \<and> xs \<noteq> []")
    case False
    then have "until_decisive rs = [p]"
      using rs by auto
    then show ?thesis by simp
  next
    case True
    then obtain resp where resp: "fst p = Inr resp" "StatusCode resp = StatusProxyAuthRequired"
      by (auto simp: returns_407_def split: sum.splits)
    from True rs have ne: "until_decisive ps \<noteq> []" by auto
    have ud: "until_decisive rs = p # until_decisive ps"
      using True rs by simp
    have ops: "ops_of (x # xs) (Inr resp # map fst (until_decisive ps)) =
        MethodDo x (Inr resp) # BodyClose (Body resp) # ops_of xs (map fst (until_decisive ps))"
      using True ne by (simp add: ops_of_more)
    obtain q qs where q: "ops_of xs (map fst (until_decisive ps)) = q # qs"
      using Cons.IH[OF rs(2)] ne
      by (cases "ops_of xs (map fst (until_decisive ps))") auto
    from Cons.IH[OF rs(2)] show ?thesis
      using resp by (simp add: ud ops q)
  qed
qed

lemma do_two_sections:
  "multiAuthenticator_do E req rt m w = after_lookup E req rt (lookup m req) m w"
  by (simp add: multiAuthenticator_do_def after_lookup_def lookup_def Let_def
      split: option.splits)

lemma after_lookup_miss:
  "after_lookup E req rt None m w = range_methods E rt (proxyHost_of req) 0 req m w"
  by (simp add: after_lookup_def)

lemma after_lookup_hit:
  "after_lookup E req rt (Some c) m w =
     (case method_do E c req rt w of (res, req1, w1) \<Rightarrow>
        \<lparr>result = res, req_after = req1, auth_after = m, world_after = w1,
         calls = [MethodDo c res]\<rparr>)"
  by (simp add: after_lookup_def)

lemma do_miss_calls:
  assumes "lookup m req = None"
  shows "calls (multiAuthenticator_do E req rt m w) =
           ops_of (methods m) (map fst (until_decisive (replies E rt (methods m) req w)))"
    and "methods m \<noteq> [] \<Longrightarrow>
         (result (multiAuthenticator_do E req rt m w), req_after (multiAuthenticator_do E req rt m w),
          world_after (multiAuthenticator_do E req rt m w)) =
         last (until_decisive (replies E rt (methods m) req w))"
  using range_methods_replies[of 0 m E rt "proxyHost_of req" req w] assms
  by (simp_all add: do_two_sections after_lookup_miss)

lemma lookup_None_iff:
  "lookup m req = None \<longleftrightarrow> proxyHost_of req = '''' \<or> cache m (proxyHost_of req) = None"
  by (simp add: lookup_def Let_def)


lemma until_decisive_all:
  "list_all returns_407 (map fst rs) \<Longrightarrow> until_decisive rs = rs"
  by (induction rs) auto

lemma until_decisive_goes_on:
  "k < length (until_decisive rs) \<Longrightarrow> returns_407 (fst (until_decisive rs ! k)) \<Longrightarrow>
   Suc k < length rs \<Longrightarrow> Suc k < length (until_decisive rs)"
proof (induction rs arbitrary: k)
  case Nil
  then show ?case by simp
next
  case (Cons p ps)
  show ?case
  proof (cases k)
    case 0
    with Cons.prems show ?thesis by (cases ps) auto
  next
    case (Suc j)
    with Cons.prems have "returns_407 (fst p)" by (auto split: if_splits)
    with Cons.prems Suc Cons.IH[of j] show ?thesis by auto
  qed
qed

lemma ops_of_last_op:
  "length rs = length xs \<Longrightarrow> xs \<noteq> [] \<Longrightarrow>
   last (ops_of xs (map fst (until_decisive rs))) =
     MethodDo (xs ! (length (until_decisive rs) - 1)) (fst (last (until_decisive rs)))"
proof (induction xs arbitrary: rs)
  case Nil
  then show ?case by simp
next
  case (Cons x xs)
  then obtain p ps where rs: "rs = p # ps" "length ps = length xs"
    by (cases rs) auto
  show ?case
  proof (cases "returns_407 (fst p) \<and> xs \<noteq> []")
    case False
    then have "until_decisive rs = [p]"
      using rs by auto
    then show ?thesis by simp
  next
    case True
    then obtain resp where resp: "fst p = Inr resp"
      by (auto simp: returns_407_def split: sum.splits)
    from True rs have ne: "until_decisive ps \<noteq> []" by auto
    have ud: "until_decisive rs = p # until_decisive ps"
      using True rs by simp
    have ops: "ops_of (x # xs) (Inr resp # map fst (until_decisive ps)) =
        MethodDo x (Inr resp) # BodyClose (Body resp) # ops_of xs (map fst (until_decisive ps))"
      using True ne by (simp add: ops_of_more)
    have "ops_of xs (map fst (until_decisive ps)) \<noteq> []"
      using ops_of_until_decisive[OF rs(2)] ne
      by (metis list.map_disc_iff results.simps(1))
    moreover have "0 < length (until_decisive ps)" using ne by simp
    ultimately show ?thesis
      using Cons.IH[OF rs(2)] True resp ne by (simp add: ud ops)
  qed
qed

lemma ops_of_first_op:
  "xs \<noteq> [] \<Longrightarrow>
   hd (ops_of xs (map fst (until_decisive (replies E rt xs req w)))) =
     MethodDo (hd xs) (fst (method_do E (hd xs) req rt w))"
proof (cases xs)
  case Nil
  then show "xs \<noteq> [] \<Longrightarrow> ?thesis" by simp
next
  case (Cons x ys)
  obtain res req1 w1 where D: "method_do E x req rt w = (res, req1, w1)"
    by (cases "method_do E x req rt w") auto
  let ?ps = "replies E rt ys req1 (case res of Inl err \<Rightarrow> w1 | Inr resp \<Rightarrow> body_close E (Body resp) w1)"
  show "xs \<noteq> [] \<Longrightarrow> ?thesis"
  proof (cases "returns_407 res \<and> ys \<noteq> []")
    case False
    then have "until_decisive (replies E rt xs req w) = [(res, req1, w1)]"
      using Cons D by auto
    then show ?thesis using Cons D by simp
  next
    case True
    then obtain resp where resp: "res = Inr resp"
      by (auto simp: returns_407_def split: sum.splits)
    from True have ne: "until_decisive ?ps \<noteq> []" by simp
    have "until_decisive (replies E rt xs req w) = (res, req1, w1) # until_decisive ?ps"
      using Cons D True by simp
    then show ?thesis
      using Cons D True ne resp by (simp add: ops_of_more)
  qed
qed

subsection \<open>Calls that overlap\<close>

lemma overlapped_length [simp]: "length (overlapped E seen cs) = length seen + length cs"
proof (induction cs arbitrary: seen)
  case Nil
  show ?case by simp
next
  case (Cons a cs)
  obtain req rt w k where a: "a = (req, rt, w, k)" by (cases a) auto
  show ?case unfolding a overlapped.simps Cons.IH by simp
qed





section \<open>The claims about multiAuthenticator.do\<close>

lemmas run_example = ntlm_upstream_def rejecting_upstream_def example_chain_def via_up_def no_proxy_def
  nameless_proxy_def proxyHost_of_def multiAuthenticator_do_def Let_def range_methods_unfold
  StatusProxyAuthRequired_def returns_407_def

lemmas run_example2 = run_example changing_upstream_def lookup_def after_lookup_def




text \<open>
  Claim C2. Take a call with no cached method for the proxy host, on a chain that is
  not empty (newMultiAuthenticator builds chains of two or more methods), and let
  every configured method, asked in its turn, return a 407 response. Then the call
  calls the configured methods, each once, in the configured order, and closes the
  body of every response but the last before it calls the next method; it returns
  what the last method returned, a 407 response and no error, with the request and
  the world as the last method left them; calling the last method is the last thing
  the call does, so that the body of this response is not closed; and the cache is
  unchanged.
\<close>

theorem every_method_rejected:
  assumes "proxyHost_of req = '''' \<or> cache m (proxyHost_of req) = None"
    and "methods m \<noteq> []"
    and "list_all returns_407 (map fst (replies E rt (methods m) req w))"
  shows "let out = multiAuthenticator_do E req rt m w;
             rs = replies E rt (methods m) req w
         in calls out = ops_of (methods m) (map fst rs) \<and>
            invoked (calls out) = methods m \<and>
            results (calls out) = map fst rs \<and>
            closed_before_next (calls out) \<and>
            (result out, req_after out, world_after out) = last rs \<and>
            (\<exists>resp. result out = Inr resp \<and> StatusCode resp = 407 \<and>
               last (calls out) = MethodDo (last (methods m)) (Inr resp)) \<and>
            auth_after out = m"
proof -
  let ?out = "multiAuthenticator_do E req rt m w"
  let ?rs = "replies E rt (methods m) req w"
  have miss: "lookup m req = None" using assms(1) by (simp add: lookup_None_iff)
  have ud: "until_decisive ?rs = ?rs" using assms(3) by (rule until_decisive_all)
  have len: "length ?rs = length (methods m)" by simp
  have ne: "?rs \<noteq> []" using assms(2) by simp
  have c: "calls ?out = ops_of (methods m) (map fst ?rs)"
    using do_miss_calls(1)[OF miss, of E rt w] by (simp add: ud)
  have t: "(result ?out, req_after ?out, world_after ?out) = last ?rs"
    using do_miss_calls(2)[OF miss assms(2), of E rt w] by (simp add: ud)
  from ops_of_until_decisive[OF len] have
    i: "invoked (calls ?out) = methods m" and r: "results (calls ?out) = map fst ?rs"
    and cl: "closed_before_next (calls ?out)"
    by (simp_all add: ud c)
  have res: "result ?out = fst (last ?rs)"
    using arg_cong[OF t, of fst] by simp
  have "last (calls ?out) = MethodDo (methods m ! (length (methods m) - 1)) (fst (last ?rs))"
    using ops_of_last_op[OF len assms(2)] by (simp add: ud c)
  then have la: "last (calls ?out) = MethodDo (last (methods m)) (result ?out)"
    using assms(2) by (simp add: last_conv_nth res)
  have "last ?rs \<in> set ?rs" using ne by (rule last_in_set)
  then have "returns_407 (fst (last ?rs))"
    using assms(3) by (simp add: list_all_iff)
  then have r407: "returns_407 (result ?out)" by (simp add: res)
  then obtain resp where resp: "result ?out = Inr resp" "StatusCode resp = 407"
    by (auto simp: returns_407_def StatusProxyAuthRequired_def split: sum.splits)
  have au: "auth_after ?out = m"
    unfolding do_uncached[OF assms(1)]
    using resp unfolding do_uncached[OF assms(1)] by (intro range_methods_uncached) simp
  from la resp have la': "\<exists>resp. result ?out = Inr resp \<and> StatusCode resp = 407 \<and>
       last (calls ?out) = MethodDo (last (methods m)) (Inr resp)"
    by simp
  from c i r cl t la' au show ?thesis
    unfolding Let_def by (intro conjI)
qed


theorem every_method_rejected_witness:
  "(proxyHost_of via_up = '''' \<or> cache example_chain (proxyHost_of via_up) = None) \<and>
   methods example_chain \<noteq> [] \<and>
   map fst (replies rejecting_upstream () (methods example_chain) via_up 0) =
     [Inr \<lparr>StatusCode = 407, Body = 0\<rparr>, Inr \<lparr>StatusCode = 407, Body = 1\<rparr>,
      Inr \<lparr>StatusCode = 407, Body = 2\<rparr>] \<and>
   list_all returns_407 (map fst (replies rejecting_upstream () (methods example_chain) via_up 0)) \<and>
   calls (multiAuthenticator_do rejecting_upstream via_up () example_chain 0) =
     [MethodDo ''negotiate'' (Inr \<lparr>StatusCode = 407, Body = 0\<rparr>), BodyClose 0,
      MethodDo ''basic'' (Inr \<lparr>StatusCode = 407, Body = 1\<rparr>), BodyClose 1,
      MethodDo ''ntlm'' (Inr \<lparr>StatusCode = 407, Body = 2\<rparr>)] \<and>
   invoked (calls (multiAuthenticator_do rejecting_upstream via_up () example_chain 0)) =
     [''negotiate'', ''basic'', ''ntlm''] \<and>
   (result (multiAuthenticator_do rejecting_upstream via_up () example_chain 0),
    req_after (multiAuthenticator_do rejecting_upstream via_up () example_chain 0),
    world_after (multiAuthenticator_do rejecting_upstream via_up () example_chain 0)) =
     (Inr \<lparr>StatusCode = 407, Body = 2\<rparr>, via_up, 3) \<and>
   auth_after (multiAuthenticator_do rejecting_upstream via_up () example_chain 0) = example_chain"
proof -
  let ?out = "multiAuthenticator_do rejecting_upstream via_up () example_chain 0"
  have a: "proxyHost_of via_up = '''' \<or> cache example_chain (proxyHost_of via_up) = None"
    by (simp add: run_example)
  have b: "methods example_chain \<noteq> []" by (simp add: example_chain_def)
  have m: "methods example_chain = [''negotiate'', ''basic'', ''ntlm'']"
    by (simp add: example_chain_def)
  have rs: "replies rejecting_upstream () [''negotiate'', ''basic'', ''ntlm''] via_up 0 =
     [(Inr \<lparr>StatusCode = 407, Body = 0\<rparr>, via_up, 1), (Inr \<lparr>StatusCode = 407, Body = 1\<rparr>, via_up, 2),
      (Inr \<lparr>StatusCode = 407, Body = 2\<rparr>, via_up, 3)]"
    by (simp add: rejecting_upstream_def)
  have c: "map fst (replies rejecting_upstream () (methods example_chain) via_up 0) =
     [Inr \<lparr>StatusCode = 407, Body = 0\<rparr>, Inr \<lparr>StatusCode = 407, Body = 1\<rparr>,
      Inr \<lparr>StatusCode = 407, Body = 2\<rparr>]"
    unfolding m rs by simp
  have d: "list_all returns_407
      (map fst (replies rejecting_upstream () (methods example_chain) via_up 0))"
    unfolding c by (simp add: returns_407_def StatusProxyAuthRequired_def)
  from every_method_rejected[OF a b d]
  have "calls ?out = ops_of (methods example_chain)
          (map fst (replies rejecting_upstream () (methods example_chain) via_up 0))"
    and "invoked (calls ?out) = methods example_chain"
    and "(result ?out, req_after ?out, world_after ?out) =
          last (replies rejecting_upstream () (methods example_chain) via_up 0)"
    and "auth_after ?out = example_chain"
    unfolding Let_def by blast+
  then have "calls ?out =
     [MethodDo ''negotiate'' (Inr \<lparr>StatusCode = 407, Body = 0\<rparr>), BodyClose 0,
      MethodDo ''basic'' (Inr \<lparr>StatusCode = 407, Body = 1\<rparr>), BodyClose 1,
      MethodDo ''ntlm'' (Inr \<lparr>StatusCode = 407, Body = 2\<rparr>)]"
    and "invoked (calls ?out) = [''negotiate'', ''basic'', ''ntlm'']"
    and "(result ?out, req_after ?out, world_after ?out) =
          (Inr \<lparr>StatusCode = 407, Body = 2\<rparr>, via_up, 3)"
    and "auth_after ?out = example_chain"
    unfolding m rs by simp_all
  with a b c d show ?thesis by (intro conjI)
qed

text \<open>
  Claim C3, amended. A call that finds a cached method calls this method only and
  returns what it returns, a 407 response included, with the body open, whether or
  not the method is the last of the chain. A call that finds none asks the methods
  in their order, up to the first reply that is not a 407 response: a 407 response
  from a method that is not the last is followed at once by the closing of its
  body, and then by the call of the next method. The last operation is the call of
  a method whose result is what \<open>do\<close> returns, so at most one response is handed
  back with its body open. No body is ever read, so the bodies are closed without
  being drained.
\<close>

theorem rejected_bodies_closed:
  "let out = multiAuthenticator_do E req rt m w;
       tried = until_decisive (replies E rt (methods m) req w)
   in (case lookup m req of
         Some cached \<Rightarrow>
           calls out = [MethodDo cached (fst (method_do E cached req rt w))] \<and>
           result out = fst (method_do E cached req rt w)
       | None \<Rightarrow>
           calls out = ops_of (methods m) (map fst tried) \<and>
           results (calls out) = map fst tried \<and>
           invoked (calls out) = take (length tried) (methods m) \<and>
           closed_before_next (calls out) \<and>
           (\<forall>k. k < length tried \<and> Suc k < length (methods m) \<and> returns_407 (fst (tried ! k))
                \<longrightarrow> Suc k < length tried) \<and>
           (if methods m = [] then \<exists>e. result out = Inl e
            else result out = fst (last tried) \<and>
                 (\<exists>x. last (calls out) = MethodDo x (result out)))) \<and>
      (\<forall>b. BodyRead b \<notin> set (calls out))"
proof (cases "lookup m req")
  case (Some c)
  then show ?thesis
    by (simp add: do_two_sections after_lookup_hit Let_def split: prod.splits)
next
  case None
  let ?out = "multiAuthenticator_do E req rt m w"
  let ?rs = "replies E rt (methods m) req w"
  have len: "length ?rs = length (methods m)" by simp
  have c: "calls ?out = ops_of (methods m) (map fst (until_decisive ?rs))"
    by (rule do_miss_calls(1)[OF None])
  from ops_of_until_decisive[OF len] have
    i: "invoked (calls ?out) = take (length (until_decisive ?rs)) (methods m)"
    and r: "results (calls ?out) = map fst (until_decisive ?rs)"
    and cl: "closed_before_next (calls ?out)"
    and nr: "\<forall>b. BodyRead b \<notin> set (calls ?out)"
    by (simp_all add: c)
  have go: "\<forall>k. k < length (until_decisive ?rs) \<and> Suc k < length (methods m) \<and>
      returns_407 (fst (until_decisive ?rs ! k)) \<longrightarrow> Suc k < length (until_decisive ?rs)"
    using until_decisive_goes_on[of _ ?rs] by simp
  have fin: "if methods m = [] then \<exists>e. result ?out = Inl e
      else result ?out = fst (last (until_decisive ?rs)) \<and>
           (\<exists>x. last (calls ?out) = MethodDo x (result ?out))"
  proof (cases "methods m = []")
    case True
    then show ?thesis
      using None by (simp add: do_two_sections after_lookup_miss range_methods_end)
  next
    case False
    have res: "result ?out = fst (last (until_decisive ?rs))"
      using arg_cong[OF do_miss_calls(2)[OF None False, of E rt w], of fst] by simp
    have "last (calls ?out) =
        MethodDo (methods m ! (length (until_decisive ?rs) - 1)) (fst (last (until_decisive ?rs)))"
      using ops_of_last_op[OF len False] by (simp add: c)
    with res False show ?thesis by simp
  qed
  from c r i cl go fin nr show ?thesis
    unfolding Let_def None by simp
qed


theorem rejected_bodies_closed_witness:
  "lookup example_chain via_up = None \<and>
   until_decisive (replies ntlm_upstream () (methods example_chain) via_up 0) =
     [(Inr \<lparr>StatusCode = 407, Body = 0\<rparr>, via_up, 1), (Inr \<lparr>StatusCode = 407, Body = 1\<rparr>, via_up, 2),
      (Inr \<lparr>StatusCode = 200, Body = 2\<rparr>, via_up, 3)] \<and>
   calls (multiAuthenticator_do ntlm_upstream via_up () example_chain 0) =
     [MethodDo ''negotiate'' (Inr \<lparr>StatusCode = 407, Body = 0\<rparr>), BodyClose 0,
      MethodDo ''basic'' (Inr \<lparr>StatusCode = 407, Body = 1\<rparr>), BodyClose 1,
      MethodDo ''ntlm'' (Inr \<lparr>StatusCode = 200, Body = 2\<rparr>)] \<and>
   closed_before_next (calls (multiAuthenticator_do ntlm_upstream via_up () example_chain 0)) \<and>
   result (multiAuthenticator_do ntlm_upstream via_up () example_chain 0) =
     Inr \<lparr>StatusCode = 200, Body = 2\<rparr> \<and>
   BodyRead 0 \<notin> set (calls (multiAuthenticator_do ntlm_upstream via_up () example_chain 0))"
proof -
  let ?out = "multiAuthenticator_do ntlm_upstream via_up () example_chain 0"
  have l: "lookup example_chain via_up = None"
    by (simp add: lookup_def example_chain_def Let_def)
  have m: "methods example_chain = [''negotiate'', ''basic'', ''ntlm'']"
    by (simp add: example_chain_def)
  have rs: "until_decisive (replies ntlm_upstream () [''negotiate'', ''basic'', ''ntlm''] via_up 0) =
     [(Inr \<lparr>StatusCode = 407, Body = 0\<rparr>, via_up, 1), (Inr \<lparr>StatusCode = 407, Body = 1\<rparr>, via_up, 2),
      (Inr \<lparr>StatusCode = 200, Body = 2\<rparr>, via_up, 3)]"
    by (simp add: ntlm_upstream_def returns_407_def StatusProxyAuthRequired_def)
  note th = rejected_bodies_closed[of ntlm_upstream via_up "()" example_chain 0,
      unfolded Let_def l option.case m rs]
  from th have "calls ?out = ops_of [''negotiate'', ''basic'', ''ntlm'']
          (map fst [(Inr \<lparr>StatusCode = 407, Body = 0\<rparr>, via_up, 1::nat),
                    (Inr \<lparr>StatusCode = 407, Body = 1\<rparr>, via_up, 2),
                    (Inr \<lparr>StatusCode = 200, Body = 2\<rparr>, via_up, 3)])"
    and cl: "closed_before_next (calls ?out)"
    and nr: "\<forall>b. BodyRead b \<notin> set (calls ?out)"
    by blast+
  then have c: "calls ?out =
     [MethodDo ''negotiate'' (Inr \<lparr>StatusCode = 407, Body = 0\<rparr>), BodyClose 0,
      MethodDo ''basic'' (Inr \<lparr>StatusCode = 407, Body = 1\<rparr>), BodyClose 1,
      MethodDo ''ntlm'' (Inr \<lparr>StatusCode = 200, Body = 2\<rparr>)]"
    by simp
  from th have "result ?out = fst (last [(Inr \<lparr>StatusCode = 407, Body = 0\<rparr>, via_up, 1::nat),
                    (Inr \<lparr>StatusCode = 407, Body = 1\<rparr>, via_up, 2),
                    (Inr \<lparr>StatusCode = 200, Body = 2\<rparr>, via_up, 3)])"
    by simp
  then have r: "result ?out = Inr \<lparr>StatusCode = 200, Body = 2\<rparr>" by simp
  from nr have nr0: "BodyRead 0 \<notin> set (calls ?out)" by blast
  from l rs c cl r nr0 show ?thesis unfolding m by (intro conjI)
qed

text \<open>
  Claim C3 as stated fails. When Negotiate and Basic are rejected and NTLM is
  accepted, the two 407 bodies are closed, and neither is read before. And when
  Negotiate is cached for the host and is now rejected, the call returns its 407
  response with the body open and calls no other method, although Negotiate is not
  the last method of the chain.
\<close>

theorem rejected_bodies_not_drained:
  "calls (multiAuthenticator_do ntlm_upstream via_up () example_chain 0) =
     [MethodDo ''negotiate'' (Inr \<lparr>StatusCode = 407, Body = 0\<rparr>), BodyClose 0,
      MethodDo ''basic'' (Inr \<lparr>StatusCode = 407, Body = 1\<rparr>), BodyClose 1,
      MethodDo ''ntlm'' (Inr \<lparr>StatusCode = 200, Body = 2\<rparr>)] \<and>
   \<not> drained_and_closed_before_next
       (calls (multiAuthenticator_do ntlm_upstream via_up () example_chain 0)) \<and>
   cache (auth_after (multiAuthenticator_do changing_upstream via_up () example_chain 0))
     ''up.example'' = Some ''negotiate'' \<and>
   calls (multiAuthenticator_do changing_upstream via_up ()
            (auth_after (multiAuthenticator_do changing_upstream via_up () example_chain 0)) 5) =
     [MethodDo ''negotiate'' (Inr \<lparr>StatusCode = 407, Body = 5\<rparr>)] \<and>
   result (multiAuthenticator_do changing_upstream via_up ()
            (auth_after (multiAuthenticator_do changing_upstream via_up () example_chain 0)) 5) =
     Inr \<lparr>StatusCode = 407, Body = 5\<rparr>"
  by (simp add: run_example2)

text \<open>
  Claim C4, amended. Take a call with no cached entry for the proxy host, in which
  some method returns a response whose status is not 407. Then that response is
  what the call returns, calling that method is the last thing the call does, the
  methods called are the configured ones up to and including that method, and the
  mapping from the host to that method is stored in the cache when the proxy host
  is not empty; when the proxy host is empty the cache is left as it is.
\<close>

theorem first_success_is_cached:
  assumes "proxyHost_of req = h" and "h = '''' \<or> cache m h = None"
    and "MethodDo x (Inr resp) \<in> set (calls (multiAuthenticator_do E req rt m w))"
    and "StatusCode resp \<noteq> 407"
  shows "let out = multiAuthenticator_do E req rt m w in
           result out = Inr resp \<and>
           last (calls out) = MethodDo x (Inr resp) \<and>
           (\<exists>k<length (methods m). methods m ! k = x \<and>
              invoked (calls out) = take (Suc k) (methods m)) \<and>
           auth_after out = (if h \<noteq> '''' then m\<lparr>cache := (cache m)(h \<mapsto> x)\<rparr> else m)"
proof -
  let ?out = "multiAuthenticator_do E req rt m w"
  have un: "proxyHost_of req = '''' \<or> cache m (proxyHost_of req) = None"
    using assms(1,2) by auto
  have ne: "methods m \<noteq> []"
  proof
    assume "methods m = []"
    then have "calls ?out = []"
      unfolding do_uncached[OF un] by (simp add: range_methods_end)
    with assms(3) show False by simp
  qed
  from do_shape[OF un ne, of E rt w] obtain pre y where sh:
    "calls ?out = rejections pre @ [MethodDo y (result ?out)]"
    "map fst pre @ [y] = take (Suc (length pre)) (methods m)"
    "\<forall>r\<in>set (map snd pre). StatusCode r = 407"
    by blast
  have "MethodDo x (Inr resp) \<notin> set (rejections pre)"
  proof
    assume "MethodDo x (Inr resp) \<in> set (rejections pre)"
    then have "resp \<in> set (map snd pre)" by (rule rejections_members)
    with sh(3) assms(4) show False by blast
  qed
  moreover have "MethodDo x (Inr resp) \<in> set (rejections pre) \<or>
      MethodDo x (Inr resp) = MethodDo y (result ?out)"
    using assms(3) by (subst (asm) sh(1)) auto
  ultimately have "MethodDo x (Inr resp) = MethodDo y (result ?out)" by simp
  then have eq: "y = x" "result ?out = Inr resp" by simp_all
  have inv: "invoked (calls ?out) = take (Suc (length pre)) (methods m)"
    using sh(2) by (simp add: sh(1))
  have "length (map fst pre @ [y]) \<le> length (methods m)"
    unfolding sh(2) by simp
  then have k: "length pre < length (methods m)" by simp
  have "(map fst pre @ [y]) ! length pre = methods m ! length pre"
    unfolding sh(2) by simp
  then have nth: "methods m ! length pre = x"
    using eq(1) by (simp add: nth_append)
  have lx: "last (invoked (calls ?out)) = x"
    using eq(1) by (simp add: sh(1))
  have au: "auth_after ?out = (if h \<noteq> '''' then m\<lparr>cache := (cache m)(h \<mapsto> x)\<rparr> else m)"
  proof (cases "h = ''''")
    case True
    then have "auth_after ?out = m"
      using assms(1) unfolding do_uncached[OF un] by (intro range_methods_uncached) simp
    with True show ?thesis by simp
  next
    case False
    have "auth_after ?out =
        m\<lparr>cache := (cache m)(h \<mapsto> last (invoked (calls ?out)))\<rparr>"
      using False eq(2) assms(4) unfolding do_uncached[OF un] assms(1)
      by (rule range_methods_cached)
    with False lx show ?thesis by simp
  qed
  have la: "last (calls ?out) = MethodDo x (Inr resp)"
    using eq by (simp add: sh(1))
  from k nth inv have "\<exists>k<length (methods m). methods m ! k = x \<and>
      invoked (calls ?out) = take (Suc k) (methods m)"
    by (intro exI[of _ "length pre"]) simp
  with eq(2) la au show ?thesis
    unfolding Let_def by (intro conjI)
qed

theorem first_success_is_cached_witness:
  "proxyHost_of via_up = ''up.example'' \<and>
   (''up.example'' = '''' \<or> cache example_chain ''up.example'' = None) \<and>
   MethodDo ''ntlm'' (Inr \<lparr>StatusCode = 200, Body = 2\<rparr>)
     \<in> set (calls (multiAuthenticator_do ntlm_upstream via_up () example_chain 0)) \<and>
   StatusCode \<lparr>StatusCode = 200, Body = 2\<rparr> \<noteq> 407 \<and>
   result (multiAuthenticator_do ntlm_upstream via_up () example_chain 0) =
     Inr \<lparr>StatusCode = 200, Body = 2\<rparr> \<and>
   last (calls (multiAuthenticator_do ntlm_upstream via_up () example_chain 0)) =
     MethodDo ''ntlm'' (Inr \<lparr>StatusCode = 200, Body = 2\<rparr>) \<and>
   auth_after (multiAuthenticator_do ntlm_upstream via_up () example_chain 0) =
     example_chain\<lparr>cache := (cache example_chain)(''up.example'' \<mapsto> ''ntlm'')\<rparr>"
proof -
  have a: "proxyHost_of via_up = ''up.example''" by (simp add: run_example)
  have c: "''up.example'' = '''' \<or> cache example_chain ''up.example'' = None" by (simp add: example_chain_def)
  have d: "MethodDo ''ntlm'' (Inr \<lparr>StatusCode = 200, Body = 2\<rparr>)
     \<in> set (calls (multiAuthenticator_do ntlm_upstream via_up () example_chain 0))"
    by (simp add: run_example)
  have e: "StatusCode \<lparr>StatusCode = 200, Body = 2\<rparr> \<noteq> 407" by simp
  from first_success_is_cached[OF a c d e] a c d e
  show ?thesis by (simp add: Let_def)
qed

text \<open>
  Claim C4 as stated fails: the request carries a proxy URL whose hostname is
  empty, the cache has no entry for it, NTLM answers 200, and nothing is stored.
\<close>

theorem empty_host_nothing_cached:
  "ctx_proxy nameless_proxy = Some \<lparr>Hostname = ''''\<rparr> \<and>
   cache example_chain (proxyHost_of nameless_proxy) = None \<and>
   result (multiAuthenticator_do ntlm_upstream nameless_proxy () example_chain 0) =
     Inr \<lparr>StatusCode = 200, Body = 2\<rparr> \<and>
   last (calls (multiAuthenticator_do ntlm_upstream nameless_proxy () example_chain 0)) =
     MethodDo ''ntlm'' (Inr \<lparr>StatusCode = 200, Body = 2\<rparr>) \<and>
   cache (auth_after (multiAuthenticator_do ntlm_upstream nameless_proxy () example_chain 0))
     (proxyHost_of nameless_proxy) = None"
  by (simp add: run_example)

text \<open>
  Claim C7. newMultiAuthenticator applied to arguments that are all nil returns nil.
  A multiAuthenticator with an empty list of methods, whose cache starts empty,
  answers every call, after any number of earlier calls, with a nil response and
  the error "no authentication methods configured"; it calls nothing and changes
  nothing.
\<close>

theorem empty_chain_unauthenticated:
  "newMultiAuthenticator (replicate n None) = NilAuthenticator \<and>
   (let m = serve E earlier \<lparr>methods = [], cache = Map.empty\<rparr> in
      multiAuthenticator_do E req rt m w =
        \<lparr>result = Inl (Errorf ''no authentication methods configured'' []),
         req_after = req, auth_after = m, world_after = w, calls = []\<rparr>)"
  by (simp add: newMultiAuthenticator_all_nil serve_empty_chain do_empty_chain)

theorem empty_chain_unauthenticated_witness:
  "newMultiAuthenticator [None, None :: string option] = NilAuthenticator \<and>
   multiAuthenticator_do ntlm_upstream via_up ()
       (serve ntlm_upstream [(via_up, (), 0)] \<lparr>methods = [], cache = Map.empty\<rparr>) 0 =
     \<lparr>result = Inl (Errorf ''no authentication methods configured'' []),
      req_after = via_up, auth_after = \<lparr>methods = [], cache = Map.empty\<rparr>,
      world_after = 0, calls = []\<rparr>"
proof -
  have r: "replicate 2 None = [None, None :: string option]" by (simp add: numeral_2_eq_2)
  have s: "serve ntlm_upstream [(via_up, (), 0)] \<lparr>methods = [], cache = Map.empty\<rparr> =
      \<lparr>methods = [] :: string list, cache = Map.empty\<rparr>"
    by (simp add: run_example)
  from empty_chain_unauthenticated[of 2 ntlm_upstream "[(via_up, (), 0)]" via_up "()" 0,
      where ?'a = string]
  show ?thesis unfolding r s Let_def .
qed

text \<open>
  Claim C10. When the request context carries no proxy URL, or one whose hostname is
  empty, a call leaves the multiAuthenticator, and so the cache, as it is, and it
  does the same whatever the cache holds, so the cache is not consulted. The
  methods are tried in order: the first configured method is called with the
  request and in the world of the call, each next one after a 407 response whose
  body has been closed, up to the first reply that is not a 407 response, and the
  call returns the last reply. With no method configured the call calls nothing and
  returns the error.
\<close>

theorem no_proxy_host_leaves_cache_alone:
  assumes "proxyHost_of req = ''''"
  shows "let out = multiAuthenticator_do E req rt m w;
             tried = until_decisive (replies E rt (methods m) req w)
         in auth_after out = m \<and>
            (\<forall>c. multiAuthenticator_do E req rt (m\<lparr>cache := c\<rparr>) w =
                   out\<lparr>auth_after := m\<lparr>cache := c\<rparr>\<rparr>) \<and>
            calls out = ops_of (methods m) (map fst tried) \<and>
            results (calls out) = map fst tried \<and>
            invoked (calls out) = take (length tried) (methods m) \<and>
            prefix (invoked (calls out)) (methods m) \<and>
            (invoked (calls out) = methods m \<or> \<not> returns_407 (result out)) \<and>
            (if methods m = []
             then calls out = [] \<and>
                  result out = Inl (Errorf ''no authentication methods configured'' [])
             else hd (calls out) =
                    MethodDo (hd (methods m)) (fst (method_do E (hd (methods m)) req rt w)) \<and>
                  (result out, req_after out, world_after out) = last tried)"
proof -
  let ?out = "multiAuthenticator_do E req rt m w"
  let ?rs = "replies E rt (methods m) req w"
  have un: "proxyHost_of req = '''' \<or> cache m' (proxyHost_of req) = None"
    for m' :: "'a multiAuthenticator"
    using assms by simp
  have miss: "lookup m req = None" using assms by (simp add: lookup_None_iff)
  have out: "multiAuthenticator_do E req rt m' w = range_methods E rt '''' 0 req m' w"
    for m' :: "'a multiAuthenticator"
    using do_uncached[OF un, where m=m' and E=E and rt=rt and w=w] assms by simp
  have 1: "auth_after ?out = m"
    unfolding out by (rule range_methods_uncached) simp
  have 2: "multiAuthenticator_do E req rt (m\<lparr>cache := c\<rparr>) w =
      ?out\<lparr>auth_after := m\<lparr>cache := c\<rparr>\<rparr>" for c
  proof -
    have "auth_after (multiAuthenticator_do E req rt (m\<lparr>cache := c\<rparr>) w) = m\<lparr>cache := c\<rparr>"
      unfolding out by (rule range_methods_uncached) simp
    then show ?thesis
      using range_methods_ignores_cache[where E=E and rt=rt and h="''''" and i=0 and req=req
          and m=m and c=c and w=w]
      unfolding out by (intro outcome.equality) simp_all
  qed
  have len: "length ?rs = length (methods m)" by simp
  have c: "calls ?out = ops_of (methods m) (map fst (until_decisive ?rs))"
    by (rule do_miss_calls(1)[OF miss])
  from ops_of_until_decisive[OF len] have
    i: "invoked (calls ?out) = take (length (until_decisive ?rs)) (methods m)"
    and r: "results (calls ?out) = map fst (until_decisive ?rs)"
    by (simp_all add: c)
  from i have p: "prefix (invoked (calls ?out)) (methods m)"
    by (simp add: take_is_prefix)
  have 3: "invoked (calls ?out) = methods m \<or> \<not> returns_407 (result ?out)"
  proof (cases "methods m = []")
    case True
    then show ?thesis unfolding out by (simp add: range_methods_end)
  next
    case False
    from do_shape[OF un False, of E rt w] obtain pre x where sh:
      "calls ?out = rejections pre @ [MethodDo x (result ?out)]"
      "map fst pre @ [x] = take (Suc (length pre)) (methods m)"
      "returns_407 (result ?out) \<longrightarrow> Suc (length pre) = length (methods m)"
      by blast
    have inv: "invoked (calls ?out) = take (Suc (length pre)) (methods m)"
      using sh(2) by (simp add: sh(1))
    then show ?thesis using sh(3) by auto
  qed
  have 4: "if methods m = []
       then calls ?out = [] \<and>
            result ?out = Inl (Errorf ''no authentication methods configured'' [])
       else hd (calls ?out) =
              MethodDo (hd (methods m)) (fst (method_do E (hd (methods m)) req rt w)) \<and>
            (result ?out, req_after ?out, world_after ?out) = last (until_decisive ?rs)"
  proof (cases "methods m = []")
    case True
    then show ?thesis unfolding out by (simp add: range_methods_end)
  next
    case False
    have "hd (calls ?out) =
        MethodDo (hd (methods m)) (fst (method_do E (hd (methods m)) req rt w))"
      unfolding c using False by (rule ops_of_first_op)
    with do_miss_calls(2)[OF miss False, of E rt w] False show ?thesis by simp
  qed
  from 1 2 c r i p 3 4 show ?thesis
    unfolding Let_def by (intro conjI allI)
qed


theorem no_proxy_host_leaves_cache_alone_witness:
  "proxyHost_of no_proxy = '''' \<and>
   auth_after (multiAuthenticator_do ntlm_upstream no_proxy () example_chain 0) = example_chain \<and>
   multiAuthenticator_do ntlm_upstream no_proxy ()
       (example_chain\<lparr>cache := [''up.example'' \<mapsto> ''basic'']\<rparr>) 0 =
     multiAuthenticator_do ntlm_upstream no_proxy () example_chain 0
       \<lparr>auth_after := example_chain\<lparr>cache := [''up.example'' \<mapsto> ''basic'']\<rparr>\<rparr> \<and>
   calls (multiAuthenticator_do ntlm_upstream no_proxy () example_chain 0) =
     [MethodDo ''negotiate'' (Inr \<lparr>StatusCode = 407, Body = 0\<rparr>), BodyClose 0,
      MethodDo ''basic'' (Inr \<lparr>StatusCode = 407, Body = 1\<rparr>), BodyClose 1,
      MethodDo ''ntlm'' (Inr \<lparr>StatusCode = 200, Body = 2\<rparr>)] \<and>
   (result (multiAuthenticator_do ntlm_upstream no_proxy () example_chain 0),
    req_after (multiAuthenticator_do ntlm_upstream no_proxy () example_chain 0),
    world_after (multiAuthenticator_do ntlm_upstream no_proxy () example_chain 0)) =
     (Inr \<lparr>StatusCode = 200, Body = 2\<rparr>, no_proxy, 3)"
proof -
  let ?out = "multiAuthenticator_do ntlm_upstream no_proxy () example_chain 0"
  have a: "proxyHost_of no_proxy = ''''" by (simp add: run_example)
  have m: "methods example_chain = [''negotiate'', ''basic'', ''ntlm'']"
    by (simp add: example_chain_def)
  have ne: "[''negotiate'', ''basic'', ''ntlm''] \<noteq> ([] :: string list)" by simp
  have rs: "until_decisive (replies ntlm_upstream () [''negotiate'', ''basic'', ''ntlm''] no_proxy 0) =
     [(Inr \<lparr>StatusCode = 407, Body = 0\<rparr>, no_proxy, 1), (Inr \<lparr>StatusCode = 407, Body = 1\<rparr>, no_proxy, 2),
      (Inr \<lparr>StatusCode = 200, Body = 2\<rparr>, no_proxy, 3)]"
    by (simp add: ntlm_upstream_def returns_407_def StatusProxyAuthRequired_def)
  note th = no_proxy_host_leaves_cache_alone[OF a, of ntlm_upstream "()" example_chain 0,
      unfolded Let_def m rs]
  from th have 1: "auth_after ?out = example_chain"
    and 2: "\<forall>c. multiAuthenticator_do ntlm_upstream no_proxy () (example_chain\<lparr>cache := c\<rparr>) 0 =
             ?out\<lparr>auth_after := example_chain\<lparr>cache := c\<rparr>\<rparr>"
    and "calls ?out = ops_of [''negotiate'', ''basic'', ''ntlm'']
          (map fst [(Inr \<lparr>StatusCode = 407, Body = 0\<rparr>, no_proxy, 1::nat),
                    (Inr \<lparr>StatusCode = 407, Body = 1\<rparr>, no_proxy, 2),
                    (Inr \<lparr>StatusCode = 200, Body = 2\<rparr>, no_proxy, 3)])"
    by blast+
  then have c: "calls ?out =
     [MethodDo ''negotiate'' (Inr \<lparr>StatusCode = 407, Body = 0\<rparr>), BodyClose 0,
      MethodDo ''basic'' (Inr \<lparr>StatusCode = 407, Body = 1\<rparr>), BodyClose 1,
      MethodDo ''ntlm'' (Inr \<lparr>StatusCode = 200, Body = 2\<rparr>)]"
    by simp
  from th ne have "(result ?out, req_after ?out, world_after ?out) =
      last [(Inr \<lparr>StatusCode = 407, Body = 0\<rparr>, no_proxy, 1::nat),
            (Inr \<lparr>StatusCode = 407, Body = 1\<rparr>, no_proxy, 2),
            (Inr \<lparr>StatusCode = 200, Body = 2\<rparr>, no_proxy, 3)]"
    by (simp del: last.simps)
  then have t: "(result ?out, req_after ?out, world_after ?out) =
     (Inr \<lparr>StatusCode = 200, Body = 2\<rparr>, no_proxy, 3)"
    by simp
  from 2 have 5: "multiAuthenticator_do ntlm_upstream no_proxy ()
       (example_chain\<lparr>cache := [''up.example'' \<mapsto> ''basic'']\<rparr>) 0 =
     ?out\<lparr>auth_after := example_chain\<lparr>cache := [''up.example'' \<mapsto> ''basic'']\<rparr>\<rparr>"
    by blast
  from a 1 5 c t show ?thesis by (intro conjI)
qed

section \<open>The claim about negotiateAuthenticator.do\<close>



section \<open>The claims about main\<close>

text \<open>
  Claim C5. The kinds of the methods main hands to newMultiAuthenticator are the
  kinds it has an authenticator for, taken from the list Negotiate, Basic, NTLM in
  this order: each such kind occurs once, and none before a kind that the list puts
  before it. Unless main stops for \<open>-version\<close> or \<open>-H\<close>, the authenticator it
  goes on with is newMultiAuthenticator of these methods.
\<close>

theorem chain_order:
  "map kind_of (methods_of F P) = filter (available F P) [KNegotiate, KBasic, KNTLM] \<and>
   (\<not> version F \<and> \<not> printHash F \<longrightarrow>
      main F P = Serve (newMultiAuthenticator (map Some (methods_of F P))))"
  by (simp add: methods_of_def main_def Let_def split: option.splits)

theorem chain_order_witness:
  "\<not> version (default_flags\<lparr>kerberos := True, domain := ''CORP'', basicCreds := ''me:secret''\<rparr>) \<and>
   \<not> printHash (default_flags\<lparr>kerberos := True, domain := ''CORP'', basicCreds := ''me:secret''\<rparr>) \<and>
   methods_of (default_flags\<lparr>kerberos := True, domain := ''CORP'', basicCreds := ''me:secret''\<rparr>)
     workstation = [Negotiate (), Basic ''me:secret'', NTLM ''CORP/me''] \<and>
   map kind_of (methods_of (default_flags\<lparr>kerberos := True, domain := ''CORP'',
     basicCreds := ''me:secret''\<rparr>) workstation) = [KNegotiate, KBasic, KNTLM] \<and>
   main (default_flags\<lparr>kerberos := True, domain := ''CORP'', basicCreds := ''me:secret''\<rparr>)
     workstation =
     Serve (Multi \<lparr>methods = [Negotiate (), Basic ''me:secret'', NTLM ''CORP/me''],
                   cache = Map.empty\<rparr>)"
proof -
  let ?F = "default_flags\<lparr>kerberos := True, domain := ''CORP'', basicCreds := ''me:secret''\<rparr>"
  have a: "\<not> version ?F" "\<not> printHash ?F" by (simp_all add: default_flags_def)
  have m: "methods_of ?F workstation = [Negotiate (), Basic ''me:secret'', NTLM ''CORP/me'']"
    by (simp add: methods_of_def default_flags_def workstation_def basicAuth_of_def a_of_def
        src_of_def)
  have n: "newMultiAuthenticator [Some (Negotiate ()), Some (Basic ''me:secret''),
        Some (NTLM ''CORP/me'')] =
      Multi \<lparr>methods = [Negotiate (), Basic ''me:secret'', NTLM ''CORP/me''], cache = Map.empty\<rparr>"
    by (simp add: newMultiAuthenticator_def)
  from chain_order[of ?F workstation] a
  have "map kind_of (methods_of ?F workstation) =
      filter (available ?F workstation) [KNegotiate, KBasic, KNTLM]"
    and "main ?F workstation = Serve (newMultiAuthenticator (map Some (methods_of ?F workstation)))"
    by simp_all
  then show ?thesis using a m n by simp
qed

text \<open>
  Claim C8, amended. When main is started with \<open>-H\<close> and without \<open>-version\<close>: if
  no NTLM credentials were obtained it prints a hint and exits with code 1; if they
  were, it prints them as an assignment of \<open>NTLM_CREDENTIALS\<close> and exits with code 0.
\<close>

theorem print_mode_exit_code:
  assumes "\<not> version F" and "printHash F"
  shows "main F P =
           (case a_of F P of
              None \<Rightarrow> Exit 1 [''Please specify a domain (using -d) and username (using -u)'']
            | Some a \<Rightarrow>
                Exit 0 [''# Add this to your ~/.profile (or equivalent) and restart your shell'',
                        ''NTLM_CREDENTIALS='' @ quoted P a @ ''; export NTLM_CREDENTIALS''])"
  using assms by (simp add: main_def)

theorem print_mode_exit_code_witness:
  "\<not> version (default_flags\<lparr>printHash := True\<rparr>) \<and> printHash (default_flags\<lparr>printHash := True\<rparr>) \<and>
   a_of (default_flags\<lparr>printHash := True\<rparr>) workstation = None \<and>
   main (default_flags\<lparr>printHash := True\<rparr>) workstation =
     Exit 1 [''Please specify a domain (using -d) and username (using -u)''] \<and>
   \<not> version (default_flags\<lparr>printHash := True, domain := ''CORP''\<rparr>) \<and>
   printHash (default_flags\<lparr>printHash := True, domain := ''CORP''\<rparr>) \<and>
   a_of (default_flags\<lparr>printHash := True, domain := ''CORP''\<rparr>) workstation = Some ''CORP/me'' \<and>
   main (default_flags\<lparr>printHash := True, domain := ''CORP''\<rparr>) workstation =
     Exit 0 [''# Add this to your ~/.profile (or equivalent) and restart your shell'',
             ''NTLM_CREDENTIALS=CORP/me; export NTLM_CREDENTIALS'']"
proof -
  let ?F = "default_flags\<lparr>printHash := True\<rparr>"
  let ?G = "default_flags\<lparr>printHash := True, domain := ''CORP''\<rparr>"
  have f: "\<not> version ?F" "printHash ?F" by (simp_all add: default_flags_def)
  have g: "\<not> version ?G" "printHash ?G" by (simp_all add: default_flags_def)
  have af: "a_of ?F workstation = None"
    by (simp add: a_of_def src_of_def default_flags_def workstation_def)
  have ag: "a_of ?G workstation = Some ''CORP/me''"
    by (simp add: a_of_def src_of_def default_flags_def workstation_def)
  have q: "quoted workstation ''CORP/me'' = ''CORP/me''" by (simp add: workstation_def)
  from print_mode_exit_code[OF f, of workstation] print_mode_exit_code[OF g, of workstation]
  show ?thesis using f g af ag q by simp
qed

text \<open>
  Claim C8 as stated fails: started with \<open>-H\<close> and \<open>-version\<close>, with no NTLM
  credentials, main prints the version and exits with code 0.
\<close>

theorem version_flag_wins_over_print_mode:
  "printHash (default_flags\<lparr>printHash := True, version := True\<rparr>) \<and>
   a_of (default_flags\<lparr>printHash := True, version := True\<rparr>) workstation = None \<and>
   main (default_flags\<lparr>printHash := True, version := True\<rparr>) workstation =
     Exit 0 [''Alpaca v2'']"
  by (simp add: main_def a_of_def src_of_def default_flags_def workstation_def)

end
